theory Spec2Isabelle
  imports Main "HOL-Library.Word"
begin

section \<open>Values of the Go program\<close>

text \<open>
  \<^verbatim>\<open>time.Duration\<close> is an \<^verbatim>\<open>int64\<close> count of nanoseconds: a 64-bit word read with
  \<open>sint\<close>, whose subtraction wraps. Points in time are natural numbers: nanoseconds
  since \<^verbatim>\<open>startTime := time.Now()\<close> of the call of \<^verbatim>\<open>handle\<close> that is running.
\<close>

type_synonym duration = "64 word"

text \<open>
  The error values the package returns or passes on. A Go \<^verbatim>\<open>error\<close> is \<^verbatim>\<open>nil\<close>
  (\<open>None\<close>) or one of them.
\<close>

datatype error = ErrQueueShutdown | DeadlineExceeded | Canceled | HandlerError string

type_synonym go_error = "error option"

text \<open>An \<^verbatim>\<open>interface{}\<close> value, as \<^verbatim>\<open>panic\<close> takes and \<^verbatim>\<open>recover\<close> gives.\<close>

datatype iface = INil | IVal string

text \<open>How a call ends: it returns a value or it panics with one.\<close>

datatype 'a exit = Returns 'a | Panics iface

text \<open>\<^verbatim>\<open>queue.Job\<close>, with the fields this package reads.\<close>

record job =
  Timeout :: duration
  Payload :: "8 word list"

section \<open>The worker\<close>

datatype chan = Open | Closed

text \<open>
  What a worker has done to its collaborators: \<^verbatim>\<open>s.rdb.Close()\<close> and
  \<^verbatim>\<open>close(s.stop)\<close>, oldest first.
\<close>

datatype effect = RdbClose | CloseStop

text \<open>
  The struct \<^verbatim>\<open>Worker\<close>. \<open>stop\<close> is the state of the channel \<^verbatim>\<open>s.stop\<close>,
  \<open>stopOnce\<close> says whether \<^verbatim>\<open>s.stopOnce\<close> has run its function. The client
  \<^verbatim>\<open>rdb\<close> is outside this package: \<open>effects\<close> records the calls made on it and on
  \<^verbatim>\<open>s.stop\<close>. What \<^verbatim>\<open>runFunc\<close> does in one call of \<^verbatim>\<open>handle\<close> is given with
  that call (\<open>schedule\<close> below); the logger is not modelled.
\<close>

record worker =
  addr :: string
  db :: int
  connectionString :: string
  password :: string
  channel :: string
  channelSize :: int
  stopOnce :: bool
  stop :: chan
  stopFlag :: "32 word"
  startFlag :: "32 word"
  effects :: "effect list"

datatype worker_option =
    WithAddr string
  | WithDB int
  | WithChannelSize int
  | WithPassword string
  | WithConnectionString string
  | WithChannel string

fun apply_option :: "worker_option \<Rightarrow> worker \<Rightarrow> worker" where
  "apply_option (WithAddr a) w = w\<lparr>addr := a\<rparr>"
| "apply_option (WithDB d) w = w\<lparr>db := d\<rparr>"
| "apply_option (WithChannelSize n) w = w\<lparr>channelSize := n\<rparr>"
| "apply_option (WithPassword p) w = w\<lparr>password := p\<rparr>"
| "apply_option (WithConnectionString c) w = w\<lparr>connectionString := c\<rparr>"
| "apply_option (WithChannel c) w = w\<lparr>channel := c\<rparr>"

text \<open>
  \<^verbatim>\<open>NewWorker\<close>, for a client that could be built and answered the ping (otherwise
  the logger's \<^verbatim>\<open>Fatal\<close> ends the program).
\<close>

definition NewWorker :: "worker_option list \<Rightarrow> worker" where
  "NewWorker opts =
     fold apply_option opts
       \<lparr>addr = ''127.0.0.1:6379'', db = 0, connectionString = '''', password = '''',
        channel = ''queue'', channelSize = 0, stopOnce = False, stop = Open,
        stopFlag = 0, startFlag = 0, effects = []\<rparr>"

definition BeforeRun :: "worker \<Rightarrow> go_error \<times> worker" where
  "BeforeRun s = (None, s)"

definition AfterRun :: "worker \<Rightarrow> go_error \<times> worker" where
  "AfterRun s = (None, s)"

definition Capacity :: "worker \<Rightarrow> int \<times> worker" where
  "Capacity s = (0, s)"

definition Usage :: "worker \<Rightarrow> int \<times> worker" where
  "Usage s = (0, s)"

text \<open>\<^verbatim>\<open>atomic.CompareAndSwapInt32\<close>: whether it swapped, and the new content.\<close>

definition CompareAndSwapInt32 :: "32 word \<Rightarrow> 32 word \<Rightarrow> 32 word \<Rightarrow> bool \<times> 32 word" where
  "CompareAndSwapInt32 v old new = (if v = old then (True, new) else (False, v))"

text \<open>
  The function handed to \<^verbatim>\<open>s.stopOnce.Do\<close>. Closing a closed channel panics in Go.
\<close>

definition teardown :: "worker \<Rightarrow> unit exit \<times> worker" where
  "teardown s =
     (let s1 = s\<lparr>effects := effects s @ [RdbClose]\<rparr>
      in case stop s1 of
           Closed \<Rightarrow> (Panics (IVal ''close of closed channel''), s1)
         | Open \<Rightarrow> (Returns (), s1\<lparr>stop := Closed, effects := effects s1 @ [CloseStop]\<rparr>))"

text \<open>
  \<^verbatim>\<open>sync.Once.Do\<close>: the function runs if none has run before; the \<^verbatim>\<open>Once\<close> counts
  as done when the function returns or panics.
\<close>

definition Once_Do :: "(worker \<Rightarrow> unit exit \<times> worker) \<Rightarrow> worker \<Rightarrow> unit exit \<times> worker" where
  "Once_Do f s =
     (if stopOnce s then (Returns (), s)
      else (case f s of (r, s') \<Rightarrow> (r, s'\<lparr>stopOnce := True\<rparr>)))"

definition Shutdown :: "worker \<Rightarrow> go_error exit \<times> worker" where
  "Shutdown s =
     (case CompareAndSwapInt32 (stopFlag s) 0 1 of
        (False, _) \<Rightarrow> (Returns (Some ErrQueueShutdown), s)
      | (True, v) \<Rightarrow>
          (case Once_Do teardown (s\<lparr>stopFlag := v\<rparr>) of
             (Panics p, s') \<Rightarrow> (Panics p, s')
           | (Returns _, s') \<Rightarrow> (Returns None, s')))"

text \<open>\<^verbatim>\<open>Queue\<close> takes a \<^verbatim>\<open>queue.QueuedMessage\<close>, here its bytes, and does not read it.\<close>

definition Queue :: "worker \<Rightarrow> 8 word list \<Rightarrow> go_error \<times> worker" where
  "Queue s m = (if stopFlag s = 1 then (Some ErrQueueShutdown, s) else (None, s))"

definition Run :: "worker \<Rightarrow> go_error \<times> worker" where
  "Run s = (case stop s of Closed \<Rightarrow> (Some ErrQueueShutdown, s) | Open \<Rightarrow> (None, s))"

section \<open>Running one job\<close>

text \<open>
  One call of \<^verbatim>\<open>handle\<close> runs against what happens around it, which the code does not
  decide:
  \<^item> \<open>handler\<close>: when \<^verbatim>\<open>s.runFunc(ctx, job)\<close> ends in this call and how (it returns an
    error, or panics with the value that \<^verbatim>\<open>recover()\<close> then reports), or \<open>None\<close> if it
    never ends;
  \<^item> \<open>stop_at\<close>: when a concurrent \<^verbatim>\<open>Shutdown\<close> closes \<^verbatim>\<open>s.stop\<close>, if one does;
  \<^item> \<open>rnd1\<close>, \<open>rnd2\<close>: the random numbers by which the two \<^verbatim>\<open>select\<close> statements
    choose among the cases that are ready.
  Statements take no time; time passes only while a \<^verbatim>\<open>select\<close> blocks.
\<close>

record schedule =
  handler :: "(nat \<times> go_error exit) option"
  stop_at :: "nat option"
  rnd1 :: nat
  rnd2 :: nat

text \<open>
  The two channels of capacity 1, made by \<^verbatim>\<open>handle\<close>: what is sent on each and
  when. With room for one value, the goroutine's single send never blocks.
\<close>

record chans =
  doneChan :: "(nat \<times> go_error) option"
  panicChan :: "(nat \<times> iface) option"

text \<open>
  \<^verbatim>\<open>recover()\<close> in the deferred function: the value of the panic that unwinds the
  goroutine, \<^verbatim>\<open>nil\<close> when there is none.
\<close>

definition recover :: "go_error exit \<Rightarrow> iface" where
  "recover x = (case x of Panics p \<Rightarrow> p | Returns _ \<Rightarrow> INil)"

text \<open>
  The goroutine: \<^verbatim>\<open>done <- s.runFunc(ctx, job)\<close> under the deferred
  \<^verbatim>\<open>if p := recover(); p != nil { panicChan <- p }\<close>.
\<close>

definition goroutine :: "(nat \<times> go_error exit) option \<Rightarrow> chans" where
  "goroutine h =
     (case h of
        None \<Rightarrow> \<lparr>doneChan = None, panicChan = None\<rparr>
      | Some (t, x) \<Rightarrow>
          \<lparr>doneChan = (case x of Returns e \<Rightarrow> Some (t, e) | Panics _ \<Rightarrow> None),
           panicChan = (let p = recover x in if p \<noteq> INil then Some (t, p) else None)\<rparr>)"

text \<open>
  \<^verbatim>\<open>context.WithTimeout(context.Background(), d)\<close> made at time \<open>now\<close>: a deadline,
  and the error once the context has been cancelled. A timeout that is not positive
  gives a context that is cancelled already.
\<close>

record go_context =
  deadline :: nat
  err :: go_error

definition WithTimeout :: "nat \<Rightarrow> duration \<Rightarrow> go_context" where
  "WithTimeout now d =
     \<lparr>deadline = now + nat (sint d),
      err = (if sint d \<le> 0 then Some DeadlineExceeded else None)\<rparr>"

text \<open>\<^verbatim>\<open>ctx.Err()\<close> at a time: the deadline cancels the context by itself.\<close>

definition Err :: "go_context \<Rightarrow> nat \<Rightarrow> go_error" where
  "Err c now =
     (case err c of
        Some e \<Rightarrow> Some e
      | None \<Rightarrow> if deadline c \<le> now then Some DeadlineExceeded else None)"

text \<open>\<^verbatim>\<open>cancel()\<close>: the first cancellation of a context fixes its error.\<close>

definition cancel :: "go_context \<Rightarrow> nat \<Rightarrow> go_context" where
  "cancel c now = c\<lparr>err := (case Err c now of None \<Rightarrow> Some Canceled | Some e \<Rightarrow> Some e)\<rparr>"

text \<open>
  \<^verbatim>\<open>time.Since(startTime)\<close> as a duration: the largest duration when the
  difference does not fit.
\<close>

definition Since :: "nat \<Rightarrow> nat \<Rightarrow> duration" where
  "Since startTime now =
     (if 2 ^ 63 \<le> now - startTime then 2 ^ 63 - 1 else word_of_nat (now - startTime))"

text \<open>\<^verbatim>\<open>time.After(d)\<close> called at \<open>now\<close>: the time its channel delivers.\<close>

definition After :: "nat \<Rightarrow> duration \<Rightarrow> nat" where
  "After now d = now + nat (sint d)"

subsection \<open>select\<close>

text \<open>
  A \<^verbatim>\<open>select\<close> without \<^verbatim>\<open>default\<close>, entered at \<open>now\<close>. Each case is given in the
  order of the source as the time its channel becomes ready and what is received
  then, \<open>None\<close> for a channel that never becomes ready. The statement blocks until the
  first case is ready and takes one of the cases ready then, chosen by the random
  number \<open>r\<close>. It blocks for ever (\<open>None\<close>) when no case ever becomes ready.
\<close>

fun earliest :: "(nat \<times> 'a) list \<Rightarrow> nat option" where
  "earliest [] = None"
| "earliest ((t, x) # evs) =
     (case earliest evs of None \<Rightarrow> Some t | Some u \<Rightarrow> Some (min t u))"

definition select :: "nat \<Rightarrow> nat \<Rightarrow> (nat \<times> 'a) option list \<Rightarrow> (nat \<times> 'a) option" where
  "select r now cs =
     (let evs = List.map_filter id cs
      in case earliest evs of
           None \<Rightarrow> None
         | Some e \<Rightarrow>
             (let w = max now e;
                  ready = filter (\<lambda>ev. fst ev \<le> w) evs
              in Some (w, snd (ready ! (r mod length ready)))))"

subsection \<open>handle\<close>

datatype recv1 = GotPanic iface | CtxDone | GotStop | GotDone go_error

datatype recv2 = TimerFired | GotDone2 go_error | GotPanic2 iface

text \<open>
  When \<^verbatim>\<open>s.stop\<close> is ready for this call: at once if the worker is stopped already,
  else when the schedule closes it.
\<close>

definition stop_ready :: "worker \<Rightarrow> schedule \<Rightarrow> nat option" where
  "stop_ready s sch = (case stop s of Closed \<Rightarrow> Some 0 | Open \<Rightarrow> stop_at sch)"

text \<open>The outer \<^verbatim>\<open>select\<close>, entered at \<open>now\<close>.\<close>

definition first_select ::
  "worker \<Rightarrow> go_context \<Rightarrow> chans \<Rightarrow> schedule \<Rightarrow> nat \<Rightarrow> (nat \<times> recv1) option" where
  "first_select s ctx chs sch now =
     select (rnd1 sch) now
       [map_option (\<lambda>(t, p). (t, GotPanic p)) (panicChan chs),
        Some (deadline ctx, CtxDone),
        map_option (\<lambda>t. (t, GotStop)) (stop_ready s sch),
        map_option (\<lambda>(t, e). (t, GotDone e)) (doneChan chs)]"

text \<open>\<^verbatim>\<open>leftTime := job.Timeout - time.Since(startTime)\<close>, in 64 bits.\<close>

definition leftTime :: "job \<Rightarrow> nat \<Rightarrow> nat \<Rightarrow> duration" where
  "leftTime j startTime now = Timeout j - Since startTime now"

text \<open>The inner \<^verbatim>\<open>select\<close>, entered at \<open>now\<close> with the remaining time \<open>left\<close>.\<close>

definition second_select :: "chans \<Rightarrow> schedule \<Rightarrow> nat \<Rightarrow> duration \<Rightarrow> (nat \<times> recv2) option" where
  "second_select chs sch now left =
     select (rnd2 sch) now
       [Some (After now left, TimerFired),
        map_option (\<lambda>(t, e). (t, GotDone2 e)) (doneChan chs),
        map_option (\<lambda>(t, p). (t, GotPanic2 p)) (panicChan chs)]"

text \<open>
  What a call of \<^verbatim>\<open>handle\<close> leaves: how it ended, when, and the job's context after
  the deferred \<^verbatim>\<open>cancel()\<close>.
\<close>

record handled =
  outcome :: "go_error exit"
  returned_at :: nat
  ctx_after :: go_context

definition finish :: "go_error exit \<Rightarrow> nat \<Rightarrow> go_context \<Rightarrow> handled" where
  "finish x t ctx = \<lparr>outcome = x, returned_at = t, ctx_after = cancel ctx t\<rparr>"

text \<open>
  \<^verbatim>\<open>handle\<close>. \<open>None\<close> would be a call that blocks for ever in one of its
  \<^verbatim>\<open>select\<close> statements.
\<close>

definition handle :: "worker \<Rightarrow> job \<Rightarrow> schedule \<Rightarrow> handled option" where
  "handle s j sch =
     (let startTime = 0;
          ctx = WithTimeout startTime (Timeout j);
          chs = goroutine (handler sch)
      in case first_select s ctx chs sch startTime of
           None \<Rightarrow> None
         | Some (t, GotPanic p) \<Rightarrow> Some (finish (Panics p) t ctx)
         | Some (t, CtxDone) \<Rightarrow> Some (finish (Returns (Err ctx t)) t ctx)
         | Some (t, GotStop) \<Rightarrow>
             (let ctx' = cancel ctx t;
                  left = leftTime j startTime t
              in case second_select chs sch t left of
                   None \<Rightarrow> None
                 | Some (t', TimerFired) \<Rightarrow>
                     Some (finish (Returns (Some DeadlineExceeded)) t' ctx')
                 | Some (t', GotDone2 e) \<Rightarrow> Some (finish (Returns e) t' ctx')
                 | Some (t', GotPanic2 p) \<Rightarrow> Some (finish (Panics p) t' ctx'))
         | Some (t, GotDone e) \<Rightarrow> Some (finish (Returns e) t ctx))"

section \<open>Sequences of calls\<close>

datatype call =
    CallBeforeRun
  | CallAfterRun
  | CallHandle job schedule
  | CallShutdown
  | CallCapacity
  | CallUsage
  | CallQueue "8 word list"
  | CallRun

datatype reply =
    Error go_error
  | Number int
  | Handled "handled option"
  | Crash iface

text \<open>One call on the worker: what the caller gets and the worker afterwards.\<close>

fun step :: "call \<Rightarrow> worker \<Rightarrow> reply \<times> worker" where
  "step CallBeforeRun s = (case BeforeRun s of (e, s') \<Rightarrow> (Error e, s'))"
| "step CallAfterRun s = (case AfterRun s of (e, s') \<Rightarrow> (Error e, s'))"
| "step (CallHandle j sch) s = (Handled (handle s j sch), s)"
| "step CallShutdown s =
     (case Shutdown s of (Returns e, s') \<Rightarrow> (Error e, s') | (Panics p, s') \<Rightarrow> (Crash p, s'))"
| "step CallCapacity s = (case Capacity s of (n, s') \<Rightarrow> (Number n, s'))"
| "step CallUsage s = (case Usage s of (n, s') \<Rightarrow> (Number n, s'))"
| "step (CallQueue m) s = (case Queue s m of (e, s') \<Rightarrow> (Error e, s'))"
| "step CallRun s = (case Run s of (e, s') \<Rightarrow> (Error e, s'))"

text \<open>
  A sequence of calls, one after the other: the replies in order and the worker at the
  end. A call that panics is answered by \<open>Crash\<close>, and the sequence goes on with the
  worker as the panic left it, as under a caller that recovers.
\<close>

fun exec :: "call list \<Rightarrow> worker \<Rightarrow> reply list \<times> worker" where
  "exec [] s = ([], s)"
| "exec (c # cs) s =
     (case step c s of (r, s') \<Rightarrow> (case exec cs s' of (rs, s'') \<Rightarrow> (r # rs, s'')))"


section \<open>The two states a worker is ever in\<close>

text \<open>
  A worker as \<^verbatim>\<open>NewWorker\<close> leaves it, and a worker after a \<^verbatim>\<open>Shutdown\<close> that
  returned \<^verbatim>\<open>nil\<close>.
\<close>

definition fresh :: "worker \<Rightarrow> bool" where
  "fresh s = (stopFlag s = 0 \<and> stop s = Open \<and> \<not> stopOnce s \<and> effects s = [])"

definition stopped :: "worker \<Rightarrow> bool" where
  "stopped s =
     (stopFlag s = 1 \<and> stop s = Closed \<and> stopOnce s \<and> effects s = [RdbClose, CloseStop])"

section \<open>Notions for stating when things happen\<close>

text \<open>
  \<open>later_than ev t\<close>: the event \<open>ev\<close> has not happened by time \<open>t\<close>.
  \<open>handler_ends\<close> is when \<^verbatim>\<open>s.runFunc\<close> returns or panics in a schedule.
\<close>

definition later_than :: "nat option \<Rightarrow> nat \<Rightarrow> bool" where
  "later_than ev t = (case ev of None \<Rightarrow> True | Some u \<Rightarrow> t < u)"

definition handler_ends :: "schedule \<Rightarrow> nat option" where
  "handler_ends sch = map_option fst (handler sch)"

text \<open>
  The context, the channels and the deadline of a job in a call of \<^verbatim>\<open>handle\<close>, which
  starts at time 0.
\<close>

abbreviation job_ctx :: "job \<Rightarrow> go_context" where
  "job_ctx j \<equiv> WithTimeout 0 (Timeout j)"

abbreviation job_chans :: "schedule \<Rightarrow> chans" where
  "job_chans sch \<equiv> goroutine (handler sch)"

abbreviation job_deadline :: "job \<Rightarrow> nat" where
  "job_deadline j \<equiv> nat (sint (Timeout j))"

section \<open>Facts about the worker's calls\<close>

lemma apply_option_core:
  "stopFlag (apply_option x w) = stopFlag w"
  "stop (apply_option x w) = stop w"
  "stopOnce (apply_option x w) = stopOnce w"
  "effects (apply_option x w) = effects w"
  by (cases x; simp)+

lemma fold_apply_option_core:
  "stopFlag (fold apply_option opts w) = stopFlag w"
  "stop (fold apply_option opts w) = stop w"
  "stopOnce (fold apply_option opts w) = stopOnce w"
  "effects (fold apply_option opts w) = effects w"
  by (induction opts arbitrary: w; simp add: apply_option_core)+

lemma NewWorker_core:
  "stopFlag (NewWorker opts) = 0"
  "stop (NewWorker opts) = Open"
  "stopOnce (NewWorker opts) = False"
  "effects (NewWorker opts) = []"
  by (simp_all add: NewWorker_def fold_apply_option_core)

lemma fresh_NewWorker: "fresh (NewWorker opts)"
  by (simp add: fresh_def NewWorker_core)

lemma Shutdown_fresh:
  "fresh s \<Longrightarrow> fst (Shutdown s) = Returns None \<and> stopped (snd (Shutdown s))"
  by (simp add: fresh_def stopped_def Shutdown_def CompareAndSwapInt32_def Once_Do_def
      teardown_def)

lemma Shutdown_again:
  "stopFlag s \<noteq> 0 \<Longrightarrow> Shutdown s = (Returns (Some ErrQueueShutdown), s)"
  by (simp add: Shutdown_def CompareAndSwapInt32_def)

lemma step_other: "c \<noteq> CallShutdown \<Longrightarrow> snd (step c s) = s"
  by (cases c)
    (simp_all add: BeforeRun_def AfterRun_def Capacity_def Usage_def Queue_def Run_def
      split: chan.split)

lemma step_stopFlag_set: "stopFlag s \<noteq> 0 \<Longrightarrow> snd (step c s) = s"
  by (cases "c = CallShutdown") (simp_all add: step_other Shutdown_again)

lemma exec_unchanged:
  "stopFlag s \<noteq> 0 \<or> CallShutdown \<notin> set cs \<Longrightarrow> snd (exec cs s) = s"
proof (induction cs)
  case Nil
  then show ?case by simp
next
  case (Cons c cs)
  have "snd (step c s) = s"
    using Cons.prems by (auto simp: step_other step_stopFlag_set)
  moreover have "snd (exec cs s) = s"
    using Cons by auto
  ultimately show ?case
    by (simp add: split_beta)
qed

lemma length_exec: "length (fst (exec cs s)) = length cs"
  by (induction cs arbitrary: s) (simp_all add: split_beta)

lemma exec_append:
  "exec (cs @ ds) s =
     (fst (exec cs s) @ fst (exec ds (snd (exec cs s))), snd (exec ds (snd (exec cs s))))"
  by (induction cs arbitrary: s) (simp_all add: split_beta)

lemma exec_replies_stopped:
  "stopFlag s \<noteq> 0 \<Longrightarrow> i < length cs \<Longrightarrow> cs ! i = CallShutdown \<Longrightarrow>
   fst (exec cs s) ! i = Error (Some ErrQueueShutdown)"
proof (induction cs arbitrary: i)
  case Nil
  then show ?case by simp
next
  case (Cons c cs)
  have same: "snd (step c s) = s"
    using Cons.prems(1) by (rule step_stopFlag_set)
  show ?case
  proof (cases i)
    case 0
    with Cons.prems show ?thesis
      by (simp add: split_beta Shutdown_again)
  next
    case (Suc k)
    with Cons show ?thesis
      by (simp add: split_beta same)
  qed
qed

section \<open>Facts about select\<close>

lemma earliest_None_iff: "earliest evs = None \<longleftrightarrow> evs = []"
  by (induction evs rule: earliest.induct) (auto split: option.splits)

lemma earliest_in: "earliest evs = Some e \<Longrightarrow> e \<in> fst ` set evs"
proof (induction evs arbitrary: e rule: earliest.induct)
  case 1
  then show ?case by simp
next
  case (2 t x evs)
  show ?case
  proof (cases "earliest evs")
    case None
    with "2.prems" show ?thesis by simp
  next
    case (Some u)
    with "2.IH" have "u \<in> fst ` set evs" by simp
    moreover from Some "2.prems" have "e = min t u" by simp
    ultimately show ?thesis by (auto simp: min_def)
  qed
qed

lemma earliest_le: "earliest evs = Some e \<Longrightarrow> ev \<in> set evs \<Longrightarrow> e \<le> fst ev"
proof (induction evs arbitrary: e rule: earliest.induct)
  case 1
  then show ?case by simp
next
  case (2 t x evs)
  then show ?case
    by (auto split: option.splits simp: earliest_None_iff)
qed

lemma set_map_filter_id: "set (List.map_filter id cs) = {ev. Some ev \<in> set cs}"
  by (induction cs) (auto split: option.splits)

text \<open>A \<^verbatim>\<open>select\<close> blocks for ever only when none of its channels ever becomes ready.\<close>

lemma select_None_iff: "select r now cs = None \<longleftrightarrow> (\<forall>ev. Some ev \<notin> set cs)"
proof -
  have "List.map_filter id cs = [] \<longleftrightarrow> set (List.map_filter id cs) = {}"
    by simp
  also have "\<dots> \<longleftrightarrow> (\<forall>ev. Some ev \<notin> set cs)"
    unfolding set_map_filter_id by blast
  finally have "earliest (List.map_filter id cs) = None \<longleftrightarrow> (\<forall>ev. Some ev \<notin> set cs)"
    by (simp only: earliest_None_iff)
  then show ?thesis
    by (cases "earliest (List.map_filter id cs)") (simp_all add: select_def Let_def)
qed

text \<open>
  What a \<^verbatim>\<open>select\<close> that wakes at \<open>w\<close> with \<open>x\<close> tells: \<open>x\<close> was ready by then, and
  no channel was ready before \<open>w\<close> unless it was ready on entry.
\<close>

lemma select_SomeD:
  assumes "select r now cs = Some (w, x)"
  shows "now \<le> w"
    and "\<exists>t. Some (t, x) \<in> set cs \<and> t \<le> w"
    and "Some ev \<in> set cs \<Longrightarrow> w \<le> max now (fst ev)"
    and "\<exists>ev. Some ev \<in> set cs \<and> w = max now (fst ev)"
proof -
  let ?evs = "List.map_filter id cs"
  let ?ready = "filter (\<lambda>ev. fst ev \<le> w) ?evs"
  from assms obtain e where e: "earliest ?evs = Some e" and w: "w = max now e"
    and x: "x = snd (?ready ! (r mod length ?ready))"
    by (auto simp: select_def Let_def split: option.splits)
  from earliest_in [OF e] obtain ev0 where ev0: "ev0 \<in> set ?evs" "fst ev0 = e"
    by auto
  then have "ev0 \<in> set ?ready"
    using w by simp
  then have ne: "length ?ready > 0"
    by (metis length_pos_if_in_set)
  then have "r mod length ?ready < length ?ready"
    by simp
  then have "?ready ! (r mod length ?ready) \<in> set ?ready"
    by (rule nth_mem)
  then have mem: "?ready ! (r mod length ?ready) \<in> set ?evs"
    and le: "fst (?ready ! (r mod length ?ready)) \<le> w"
    by simp_all
  show "now \<le> w" using w by simp
  from mem have "Some (?ready ! (r mod length ?ready)) \<in> set cs"
    by (simp add: set_map_filter_id)
  then have "Some (fst (?ready ! (r mod length ?ready)), x) \<in> set cs"
    using x by simp
  with le show "\<exists>t. Some (t, x) \<in> set cs \<and> t \<le> w"
    by blast
  show "\<exists>ev. Some ev \<in> set cs \<and> w = max now (fst ev)"
    using ev0 w by (intro exI [of _ ev0]) (simp add: set_map_filter_id)
  show "w \<le> max now (fst ev)" if "Some ev \<in> set cs"
  proof -
    from that have "ev \<in> set ?evs" by (simp add: set_map_filter_id)
    from earliest_le [OF e this] show ?thesis using w by simp
  qed
qed


lemma step_two_states:
  assumes "fresh s \<or> stopped s"
  shows "fresh (snd (step c s)) \<or> stopped (snd (step c s))"
    and "fst (step c s) \<noteq> Crash p"
proof -
  show "fresh (snd (step c s)) \<or> stopped (snd (step c s))"
  proof (cases "c = CallShutdown")
    case False
    then show ?thesis using assms by (simp add: step_other)
  next
    case True
    show ?thesis
    proof (cases "fresh s")
      case True
      with \<open>c = CallShutdown\<close> Shutdown_fresh [of s] show ?thesis
        by (simp add: split_beta split: exit.split)
    next
      case False
      with assms have "stopFlag s \<noteq> 0" by (auto simp: stopped_def)
      then have "snd (step c s) = s" by (rule step_stopFlag_set)
      with assms show ?thesis by simp
    qed
  qed
  show "fst (step c s) \<noteq> Crash p"
  proof (cases c)
    case CallShutdown
    show ?thesis
    proof (cases "fresh s")
      case True
      with CallShutdown Shutdown_fresh [of s] show ?thesis
        by (cases "Shutdown s") (auto split: exit.split)
    next
      case False
      with assms have "stopFlag s \<noteq> 0" by (auto simp: stopped_def)
      with CallShutdown show ?thesis by (simp add: Shutdown_again)
    qed
  qed (simp_all add: split_beta)
qed

text \<open>
  Whatever is called on it, a worker made by \<^verbatim>\<open>NewWorker\<close> is fresh or stopped, and
  no call panics.
\<close>

lemma exec_two_states:
  "fresh s \<or> stopped s \<Longrightarrow>
   (fresh (snd (exec cs s)) \<or> stopped (snd (exec cs s))) \<and> Crash p \<notin> set (fst (exec cs s))"
proof (induction cs arbitrary: s)
  case Nil
  then show ?case by simp
next
  case (Cons c cs)
  have a: "fresh (snd (step c s)) \<or> stopped (snd (step c s))"
    by (rule step_two_states(1) [OF Cons.prems])
  have b: "fst (step c s) \<noteq> Crash p"
    by (rule step_two_states(2) [OF Cons.prems])
  from Cons.IH [OF a] b show ?case
    by (auto simp: split_beta)
qed

section \<open>Facts about handle\<close>

lemma first_select_total: "first_select s ctx chs sch now \<noteq> None"
  unfolding first_select_def select_None_iff
  by (metis list.set_intros(1,2))

lemma second_select_total: "second_select chs sch now left \<noteq> None"
  unfolding second_select_def select_None_iff
  by (metis list.set_intros(1))

lemma first_selectD:
  assumes "first_select s ctx chs sch now = Some (w, x)"
  shows "now \<le> w"
    and "w \<le> max now (deadline ctx)"
    and "panicChan chs = Some (t, p) \<Longrightarrow> w \<le> max now t"
    and "stop_ready s sch = Some t \<Longrightarrow> w \<le> max now t"
    and "doneChan chs = Some (t, e) \<Longrightarrow> w \<le> max now t"
    and "x = GotPanic p \<Longrightarrow> \<exists>u\<le>w. panicChan chs = Some (u, p)"
    and "x = CtxDone \<Longrightarrow> deadline ctx \<le> w"
    and "x = GotStop \<Longrightarrow> \<exists>u\<le>w. stop_ready s sch = Some u"
    and "x = GotDone e \<Longrightarrow> \<exists>u\<le>w. doneChan chs = Some (u, e)"
proof -
  note sel = assms [unfolded first_select_def]
  show "now \<le> w" by (rule select_SomeD(1) [OF sel])
  show "w \<le> max now (deadline ctx)"
    using select_SomeD(3) [OF sel, of "(deadline ctx, CtxDone)"] by simp
  show "w \<le> max now t" if "panicChan chs = Some (t, p)"
    using select_SomeD(3) [OF sel, of "(t, GotPanic p)"] that by simp
  show "w \<le> max now t" if "stop_ready s sch = Some t"
    using select_SomeD(3) [OF sel, of "(t, GotStop)"] that by simp
  show "w \<le> max now t" if "doneChan chs = Some (t, e)"
    using select_SomeD(3) [OF sel, of "(t, GotDone e)"] that by simp
  from select_SomeD(2) [OF sel] obtain u where
    u: "u \<le> w" and mem: "Some (u, x) \<in> set
       [map_option (\<lambda>(t, p). (t, GotPanic p)) (panicChan chs),
        Some (deadline ctx, CtxDone),
        map_option (\<lambda>t. (t, GotStop)) (stop_ready s sch),
        map_option (\<lambda>(t, e). (t, GotDone e)) (doneChan chs)]"
    by blast
  show "\<exists>u\<le>w. panicChan chs = Some (u, p)" if "x = GotPanic p"
    using mem u that by (cases "panicChan chs"; cases "stop_ready s sch"; cases "doneChan chs") auto
  show "deadline ctx \<le> w" if "x = CtxDone"
    using mem u that by (cases "panicChan chs"; cases "stop_ready s sch"; cases "doneChan chs") auto
  show "\<exists>u\<le>w. stop_ready s sch = Some u" if "x = GotStop"
    using mem u that by (cases "panicChan chs"; cases "stop_ready s sch"; cases "doneChan chs") auto
  show "\<exists>u\<le>w. doneChan chs = Some (u, e)" if "x = GotDone e"
    using mem u that by (cases "panicChan chs"; cases "stop_ready s sch"; cases "doneChan chs") auto
qed

lemma second_selectD:
  assumes "second_select chs sch now left = Some (w, x)"
  shows "now \<le> w"
    and "w \<le> max now (After now left)"
    and "panicChan chs = Some (t, p) \<Longrightarrow> w \<le> max now t"
    and "doneChan chs = Some (t, e) \<Longrightarrow> w \<le> max now t"
    and "x = TimerFired \<Longrightarrow> After now left \<le> w"
    and "x = GotPanic2 p \<Longrightarrow> \<exists>u\<le>w. panicChan chs = Some (u, p)"
    and "x = GotDone2 e \<Longrightarrow> \<exists>u\<le>w. doneChan chs = Some (u, e)"
proof -
  note sel = assms [unfolded second_select_def]
  show "now \<le> w" by (rule select_SomeD(1) [OF sel])
  show "w \<le> max now (After now left)"
    using select_SomeD(3) [OF sel, of "(After now left, TimerFired)"] by simp
  show "w \<le> max now t" if "panicChan chs = Some (t, p)"
    using select_SomeD(3) [OF sel, of "(t, GotPanic2 p)"] that by simp
  show "w \<le> max now t" if "doneChan chs = Some (t, e)"
    using select_SomeD(3) [OF sel, of "(t, GotDone2 e)"] that by simp
  from select_SomeD(2) [OF sel] obtain u where
    u: "u \<le> w" and mem: "Some (u, x) \<in> set
       [Some (After now left, TimerFired),
        map_option (\<lambda>(t, e). (t, GotDone2 e)) (doneChan chs),
        map_option (\<lambda>(t, p). (t, GotPanic2 p)) (panicChan chs)]"
    by blast
  show "After now left \<le> w" if "x = TimerFired"
    using mem u that by (cases "panicChan chs"; cases "doneChan chs") auto
  show "\<exists>u\<le>w. panicChan chs = Some (u, p)" if "x = GotPanic2 p"
    using mem u that by (cases "panicChan chs"; cases "stop_ready s sch"; cases "doneChan chs") auto
  show "\<exists>u\<le>w. doneChan chs = Some (u, e)" if "x = GotDone2 e"
    using mem u that by (cases "panicChan chs"; cases "stop_ready s sch"; cases "doneChan chs") auto
qed


lemma sint_sub_nat:
  assumes "int t \<le> sint (T :: 64 word)"
  shows "sint (T - word_of_nat t) = sint T - int t"
proof -
  have T: "sint T < 2 ^ 63" "- (2 ^ 63) \<le> sint T"
    using sint_lt [of T] sint_ge [of T] by simp_all
  have "sint (word_of_nat t :: 64 word) = signed_take_bit 63 (int t)"
    by (simp add: signed_of_nat)
  also have "\<dots> = int t"
    using assms T by (intro signed_take_bit_int_eq_self) simp_all
  finally have t: "sint (word_of_nat t :: 64 word) = int t" .
  have "sint (T - word_of_nat t) = signed_take_bit 63 (sint T - int t)"
    by (simp add: sint_word_diff t)
  also have "\<dots> = sint T - int t"
    using assms T by (intro signed_take_bit_int_eq_self) simp_all
  finally show ?thesis .
qed

text \<open>Up to the deadline the elapsed time fits a duration.\<close>

lemma nat_small:
  assumes "int t \<le> sint (T :: 64 word)"
  shows "\<not> (2 :: nat) ^ 63 \<le> t"
proof -
  have "sint T < 2 ^ 63" using sint_lt [of T] by simp
  with assms have "int t < 2 ^ 63" by linarith
  then have "int t < int (2 ^ 63)" by simp
  then have "t < 2 ^ 63" by (simp only: of_nat_less_iff)
  then show ?thesis by (simp only: not_le)
qed

lemma Since_small:
  assumes "int t \<le> sint (T :: 64 word)"
  shows "Since 0 t = word_of_nat t"
  unfolding Since_def using nat_small [OF assms] by (simp only: minus_nat.diff_0 if_False)

lemma Since_0: "Since 0 0 = 0"
  unfolding Since_def by simp

text \<open>
  The remaining time is the timeout less the elapsed time, in 64 bits too, and the timer
  set with it fires at the deadline.
\<close>

lemma timer_at_deadline:
  assumes "t \<le> nat (sint (Timeout j))"
  shows "sint (leftTime j 0 t) = sint (Timeout j) - int t"
    and "After t (leftTime j 0 t) = nat (sint (Timeout j))"
proof -
  show a: "sint (leftTime j 0 t) = sint (Timeout j) - int t"
  proof (cases "0 \<le> sint (Timeout j)")
    case True
    with assms have le: "int t \<le> sint (Timeout j)" by simp
    then show ?thesis
      by (simp add: leftTime_def Since_small [OF le] sint_sub_nat)
  next
    case False
    with assms have "t = 0" by simp
    then show ?thesis
      by (simp add: leftTime_def Since_0)
  qed
  show "After t (leftTime j 0 t) = nat (sint (Timeout j))"
    using assms by (simp add: After_def a)
qed


lemma deadline_job_ctx: "deadline (job_ctx j) = job_deadline j"
  by (simp add: WithTimeout_def)

lemma Err_job_ctx:
  "Err (job_ctx j) t = (if job_deadline j \<le> t then Some DeadlineExceeded else None)"
  by (auto simp: Err_def WithTimeout_def)

lemma cancel_job_ctx:
  "cancel (job_ctx j) t =
     \<lparr>deadline = job_deadline j,
      err = (if job_deadline j \<le> t then Some DeadlineExceeded else Some Canceled)\<rparr>"
  by (simp add: cancel_def Err_job_ctx) (simp add: WithTimeout_def)

lemma cancel_twice:
  "cancel (cancel c t) u = cancel c t"
  by (simp add: cancel_def Err_def split: option.splits)

lemma goroutine_panicD:
  "panicChan (goroutine h) = Some (u, p) \<Longrightarrow> h = Some (u, Panics p) \<and> p \<noteq> INil"
  by (auto simp: goroutine_def recover_def Let_def split: option.splits exit.splits if_splits)

lemma goroutine_doneD:
  "doneChan (goroutine h) = Some (u, e) \<Longrightarrow> h = Some (u, Returns e)"
  by (auto simp: goroutine_def split: option.splits exit.splits)

lemma goroutine_Returns:
  "goroutine (Some (u, Returns e)) = \<lparr>doneChan = Some (u, e), panicChan = None\<rparr>"
  by (simp add: goroutine_def recover_def)

lemma goroutine_Panics:
  "p \<noteq> INil \<Longrightarrow> goroutine (Some (u, Panics p)) = \<lparr>doneChan = None, panicChan = Some (u, p)\<rparr>"
  by (simp add: goroutine_def recover_def)

lemma handle_cases:
  obtains
    (panic) t p where
      "first_select s (job_ctx j) (job_chans sch) sch 0 = Some (t, GotPanic p)"
      "handle s j sch = Some (finish (Panics p) t (job_ctx j))"
  | (ctxdone) t where
      "first_select s (job_ctx j) (job_chans sch) sch 0 = Some (t, CtxDone)"
      "handle s j sch = Some (finish (Returns (Err (job_ctx j) t)) t (job_ctx j))"
  | (stop_timer) t t' where
      "first_select s (job_ctx j) (job_chans sch) sch 0 = Some (t, GotStop)"
      "second_select (job_chans sch) sch t (leftTime j 0 t) = Some (t', TimerFired)"
      "handle s j sch = Some (finish (Returns (Some DeadlineExceeded)) t' (cancel (job_ctx j) t))"
  | (stop_done) t t' e where
      "first_select s (job_ctx j) (job_chans sch) sch 0 = Some (t, GotStop)"
      "second_select (job_chans sch) sch t (leftTime j 0 t) = Some (t', GotDone2 e)"
      "handle s j sch = Some (finish (Returns e) t' (cancel (job_ctx j) t))"
  | (stop_panic) t t' p where
      "first_select s (job_ctx j) (job_chans sch) sch 0 = Some (t, GotStop)"
      "second_select (job_chans sch) sch t (leftTime j 0 t) = Some (t', GotPanic2 p)"
      "handle s j sch = Some (finish (Panics p) t' (cancel (job_ctx j) t))"
  | (finished) t e where
      "first_select s (job_ctx j) (job_chans sch) sch 0 = Some (t, GotDone e)"
      "handle s j sch = Some (finish (Returns e) t (job_ctx j))"
proof -
  obtain t x where first: "first_select s (job_ctx j) (job_chans sch) sch 0 = Some (t, x)"
    using first_select_total [of s "job_ctx j" "job_chans sch" sch 0] by (cases "first_select s (job_ctx j) (job_chans sch) sch 0") auto
  obtain t' y where second: "second_select (job_chans sch) sch t (leftTime j 0 t) = Some (t', y)"
    using second_select_total [of "job_chans sch" sch t "leftTime j 0 t"]
    by (cases "second_select (job_chans sch) sch t (leftTime j 0 t)") auto
  show thesis
  proof (cases x)
    case (GotPanic p)
    with first show ?thesis by (intro panic [of t p]) (simp_all add: handle_def Let_def)
  next
    case CtxDone
    with first show ?thesis by (intro ctxdone [of t]) (simp_all add: handle_def Let_def)
  next
    case GotStop
    show ?thesis
    proof (cases y)
      case TimerFired
      with GotStop first second show ?thesis
        by (intro stop_timer [of t t']) (simp_all add: handle_def Let_def)
    next
      case (GotDone2 e)
      with GotStop first second show ?thesis
        by (intro stop_done [of t t' e]) (simp_all add: handle_def Let_def)
    next
      case (GotPanic2 p)
      with GotStop first second show ?thesis
        by (intro stop_panic [of t t' p]) (simp_all add: handle_def Let_def)
    qed
  next
    case (GotDone e)
    with first show ?thesis by (intro finished [of t e]) (simp_all add: handle_def Let_def)
  qed
qed


lemma late_chans:
  assumes "later_than (handler_ends sch) t"
  shows "panicChan (job_chans sch) = Some (u, p) \<Longrightarrow> t < u"
    and "doneChan (job_chans sch) = Some (u, e) \<Longrightarrow> t < u"
  using assms goroutine_panicD [of "handler sch" u p] goroutine_doneD [of "handler sch" u e]
  by (auto simp: later_than_def handler_ends_def)

lemma first_select_in_time:
  "first_select s (job_ctx j) chs sch 0 = Some (t, x) \<Longrightarrow> t \<le> job_deadline j"
  using first_selectD(2) [of s "job_ctx j" chs sch 0 t x] by (simp add: deadline_job_ctx)

lemma second_select_in_time:
  assumes "t \<le> job_deadline j"
    and "second_select chs sch t (leftTime j 0 t) = Some (t', y)"
  shows "t' \<le> job_deadline j" and "t \<le> t'" and "y = TimerFired \<Longrightarrow> t' = job_deadline j"
proof -
  have timer: "After t (leftTime j 0 t) = job_deadline j"
    using assms(1) by (rule timer_at_deadline(2))
  show le: "t' \<le> job_deadline j"
    using second_selectD(2) [OF assms(2)] assms(1) by (simp add: timer)
  show "t \<le> t'"
    by (rule second_selectD(1) [OF assms(2)])
  show "t' = job_deadline j" if "y = TimerFired"
    using second_selectD(5) [OF assms(2) that] le by (simp add: timer)
qed

text \<open>Every call of \<^verbatim>\<open>handle\<close> ends, and no later than the job's deadline.\<close>

lemma handle_in_time:
  "\<exists>res. handle s j sch = Some res \<and> returned_at res \<le> job_deadline j"
proof (cases rule: handle_cases [of s j sch])
  case (panic t p)
  then show ?thesis using first_select_in_time [OF panic(1)] by (simp add: finish_def)
next
  case (ctxdone t)
  then show ?thesis using first_select_in_time [OF ctxdone(1)] by (simp add: finish_def)
next
  case (stop_timer t t')
  then show ?thesis
    using second_select_in_time(1) [OF first_select_in_time [OF stop_timer(1)] stop_timer(2)]
    by (simp add: finish_def)
next
  case (stop_done t t' e)
  then show ?thesis
    using second_select_in_time(1) [OF first_select_in_time [OF stop_done(1)] stop_done(2)]
    by (simp add: finish_def)
next
  case (stop_panic t t' p)
  then show ?thesis
    using second_select_in_time(1) [OF first_select_in_time [OF stop_panic(1)] stop_panic(2)]
    by (simp add: finish_def)
next
  case (finished t e)
  then show ?thesis using first_select_in_time [OF finished(1)] by (simp add: finish_def)
qed



lemma finish_job_ctx:
  "finish x u (job_ctx j) =
     \<lparr>outcome = x, returned_at = u,
      ctx_after = \<lparr>deadline = job_deadline j,
        err = (if job_deadline j \<le> u then Some DeadlineExceeded else Some Canceled)\<rparr>\<rparr>"
  by (simp only: finish_def cancel_job_ctx)

lemma finish_cancelled:
  "finish x u (cancel (job_ctx j) t) =
     \<lparr>outcome = x, returned_at = u,
      ctx_after = \<lparr>deadline = job_deadline j,
        err = (if job_deadline j \<le> t then Some DeadlineExceeded else Some Canceled)\<rparr>\<rparr>"
  unfolding finish_def cancel_twice by (simp add: cancel_job_ctx)


text \<open>
  A handler that returns before the deadline: \<^verbatim>\<open>handle\<close> returns its value when it
  does, from the outer \<^verbatim>\<open>select\<close> or, after a shutdown, from the inner one.
\<close>

lemma finished_early:
  assumes h: "handler sch = Some (t0, Returns e)" and early: "t0 < job_deadline j"
  shows "handle s j sch =
      Some \<lparr>outcome = Returns e, returned_at = t0,
            ctx_after = \<lparr>deadline = job_deadline j, err = Some Canceled\<rparr>\<rparr>"
proof -
  have chs: "job_chans sch = \<lparr>doneChan = Some (t0, e), panicChan = None\<rparr>"
    by (simp add: h goroutine_Returns)
  have dn: "doneChan (job_chans sch) = Some (t0, e)" and pn: "panicChan (job_chans sch) = None"
    by (simp_all add: chs)
  show ?thesis
  proof (cases rule: handle_cases [of s j sch])
    case (panic t p)
    from first_selectD(6) [OF panic(1) refl] pn show ?thesis by simp
  next
    case (ctxdone t)
    from first_selectD(7) [OF ctxdone(1) refl] first_selectD(5) [OF ctxdone(1) dn] early
    show ?thesis by (simp add: deadline_job_ctx)
  next
    case (stop_timer t t')
    have "t \<le> t0" using first_selectD(5) [OF stop_timer(1) dn] by simp
    then have "t' \<le> t0" using second_selectD(4) [OF stop_timer(2) dn] by simp
    moreover have "t' = job_deadline j"
      by (rule second_select_in_time(3)
          [OF first_select_in_time [OF stop_timer(1)] stop_timer(2) refl])
    ultimately show ?thesis using early by simp
  next
    case (stop_done t t' e')
    have t: "t \<le> t0" using first_selectD(5) [OF stop_done(1) dn] by simp
    then have "t' \<le> t0" using second_selectD(4) [OF stop_done(2) dn] by simp
    moreover from second_selectD(7) [OF stop_done(2) refl] dn have "t0 \<le> t'" "e' = e"
      by auto
    ultimately have "t' = t0" "e' = e" by simp_all
    with stop_done(3) t early show ?thesis
      by (simp add: finish_cancelled)
  next
    case (stop_panic t t' p)
    from second_selectD(6) [OF stop_panic(2) refl] pn show ?thesis by simp
  next
    case (finished t e')
    have "t \<le> t0" using first_selectD(5) [OF finished(1) dn] by simp
    moreover from first_selectD(9) [OF finished(1) refl] dn have "t0 \<le> t" "e' = e"
      by auto
    ultimately have "t = t0" "e' = e" by simp_all
    with finished(2) early show ?thesis
      by (simp add: finish_job_ctx)
  qed
qed

text \<open>The same for a handler that panics before the deadline.\<close>

lemma panicked_early:
  assumes h: "handler sch = Some (t0, Panics p)" and nn: "p \<noteq> INil"
    and early: "t0 < job_deadline j"
  shows "handle s j sch =
      Some \<lparr>outcome = Panics p, returned_at = t0,
            ctx_after = \<lparr>deadline = job_deadline j, err = Some Canceled\<rparr>\<rparr>"
proof -
  have chs: "job_chans sch = \<lparr>doneChan = None, panicChan = Some (t0, p)\<rparr>"
    by (simp add: h goroutine_Panics [OF nn])
  have dn: "doneChan (job_chans sch) = None" and pn: "panicChan (job_chans sch) = Some (t0, p)"
    by (simp_all add: chs)
  show ?thesis
  proof (cases rule: handle_cases [of s j sch])
    case (panic t p')
    have "t \<le> t0" using first_selectD(3) [OF panic(1) pn] by simp
    moreover from first_selectD(6) [OF panic(1) refl] pn have "t0 \<le> t" "p' = p"
      by auto
    ultimately have "t = t0" "p' = p" by simp_all
    with panic(2) early show ?thesis
      by (simp add: finish_job_ctx)
  next
    case (ctxdone t)
    from first_selectD(7) [OF ctxdone(1) refl] first_selectD(3) [OF ctxdone(1) pn] early
    show ?thesis by (simp add: deadline_job_ctx)
  next
    case (stop_timer t t')
    have "t \<le> t0" using first_selectD(3) [OF stop_timer(1) pn] by simp
    then have "t' \<le> t0" using second_selectD(3) [OF stop_timer(2) pn] by simp
    moreover have "t' = job_deadline j"
      by (rule second_select_in_time(3)
          [OF first_select_in_time [OF stop_timer(1)] stop_timer(2) refl])
    ultimately show ?thesis using early by simp
  next
    case (stop_done t t' e)
    from second_selectD(7) [OF stop_done(2) refl] dn show ?thesis by simp
  next
    case (stop_panic t t' p')
    have t: "t \<le> t0" using first_selectD(3) [OF stop_panic(1) pn] by simp
    then have "t' \<le> t0" using second_selectD(3) [OF stop_panic(2) pn] by simp
    moreover from second_selectD(6) [OF stop_panic(2) refl] pn have "t0 \<le> t'" "p' = p"
      by auto
    ultimately have "t' = t0" "p' = p" by simp_all
    with stop_panic(3) t early show ?thesis
      by (simp add: finish_cancelled)
  next
    case (finished t e)
    from first_selectD(9) [OF finished(1) refl] dn show ?thesis by simp
  qed
qed

text \<open>
  Whenever the handler panics, \<^verbatim>\<open>handle\<close> panics with the same value or returns the
  deadline error: nothing arrives on \<^verbatim>\<open>done\<close>.
\<close>

lemma panicked_any_time:
  assumes h: "handler sch = Some (t0, Panics p)" and nn: "p \<noteq> INil"
  shows "\<exists>res. handle s j sch = Some res
     \<and> (outcome res = Panics p \<or> outcome res = Returns (Some DeadlineExceeded))"
proof -
  have chs: "job_chans sch = \<lparr>doneChan = None, panicChan = Some (t0, p)\<rparr>"
    by (simp add: h goroutine_Panics [OF nn])
  have dn: "doneChan (job_chans sch) = None" and pn: "panicChan (job_chans sch) = Some (t0, p)"
    by (simp_all add: chs)
  show ?thesis
  proof (cases rule: handle_cases [of s j sch])
    case (panic t p')
    from first_selectD(6) [OF panic(1) refl] pn have "p' = p" by auto
    with panic(2) show ?thesis by (simp add: finish_def)
  next
    case (ctxdone t)
    from first_selectD(7) [OF ctxdone(1) refl] have "job_deadline j \<le> t"
      by (simp add: deadline_job_ctx)
    with ctxdone(2) show ?thesis by (simp add: finish_def Err_job_ctx)
  next
    case (stop_timer t t')
    then show ?thesis by (simp add: finish_def)
  next
    case (stop_done t t' e)
    from second_selectD(7) [OF stop_done(2) refl] dn show ?thesis by simp
  next
    case (stop_panic t t' p')
    from second_selectD(6) [OF stop_panic(2) refl] pn have "p' = p" by auto
    with stop_panic(3) show ?thesis by (simp add: finish_def)
  next
    case (finished t e)
    from first_selectD(9) [OF finished(1) refl] dn show ?thesis by simp
  qed
qed

lemma late_stop:
  assumes "later_than (stop_ready s sch) t"
    and "first_select s ctx chs sch 0 = Some (w, GotStop)"
  shows "t < w"
proof -
  from first_selectD(8) [OF assms(2) refl] obtain u where "u \<le> w" "stop_ready s sch = Some u"
    by blast
  with assms(1) show ?thesis by (simp add: later_than_def)
qed


text \<open>
  A handler that panics before the deadline and before any shutdown: the outer
  \<^verbatim>\<open>select\<close> receives the value.
\<close>

lemma panic_before_shutdown:
  assumes h: "handler sch = Some (t, Panics p)" and nn: "p \<noteq> INil"
    and early: "t < job_deadline j" and late: "later_than (stop_ready s sch) t"
  shows "first_select s (job_ctx j) (job_chans sch) sch 0 = Some (t, GotPanic p)"
proof -
  have dn: "doneChan (job_chans sch) = None" and pn: "panicChan (job_chans sch) = Some (t, p)"
    by (simp_all add: h goroutine_Panics [OF nn])
  obtain w x where first: "first_select s (job_ctx j) (job_chans sch) sch 0 = Some (w, x)"
    using first_select_total [of s "job_ctx j" "job_chans sch" sch 0] by fastforce
  have w: "w \<le> t" using first_selectD(3) [OF first pn] by simp
  show ?thesis
  proof (cases x)
    case (GotPanic p')
    with first_selectD(6) [OF first, of p'] pn w first show ?thesis by auto
  next
    case CtxDone
    with first_selectD(7) [OF first] w early show ?thesis
      by (simp add: deadline_job_ctx)
  next
    case GotStop
    with late_stop [OF late] first w show ?thesis by fastforce
  next
    case (GotDone e)
    with first_selectD(9) [OF first, of e] dn show ?thesis by simp
  qed
qed

text \<open>
  A handler that panics before the deadline and after a shutdown: the outer
  \<^verbatim>\<open>select\<close> takes the stop case, the inner one receives the value.
\<close>

lemma panic_after_shutdown:
  assumes h: "handler sch = Some (t, Panics p)" and nn: "p \<noteq> INil"
    and early: "t < job_deadline j" and st: "stop_ready s sch = Some u" and before: "u < t"
  shows "first_select s (job_ctx j) (job_chans sch) sch 0 = Some (u, GotStop)"
    and "second_select (job_chans sch) sch u (leftTime j 0 u) = Some (t, GotPanic2 p)"
proof -
  have dn: "doneChan (job_chans sch) = None" and pn: "panicChan (job_chans sch) = Some (t, p)"
    by (simp_all add: h goroutine_Panics [OF nn])
  obtain w x where first: "first_select s (job_ctx j) (job_chans sch) sch 0 = Some (w, x)"
    using first_select_total [of s "job_ctx j" "job_chans sch" sch 0] by fastforce
  have w: "w \<le> u" using first_selectD(4) [OF first st] by simp
  show "first_select s (job_ctx j) (job_chans sch) sch 0 = Some (u, GotStop)"
  proof (cases x)
    case (GotPanic p')
    with first_selectD(6) [OF first, of p'] pn w before show ?thesis by auto
  next
    case CtxDone
    with first_selectD(7) [OF first] w early before show ?thesis
      by (simp add: deadline_job_ctx)
  next
    case GotStop
    with first_selectD(8) [OF first] st w first show ?thesis by auto
  next
    case (GotDone e)
    with first_selectD(9) [OF first, of e] dn show ?thesis by simp
  qed
  have u: "u \<le> job_deadline j" using before early by simp
  obtain w' y where second: "second_select (job_chans sch) sch u (leftTime j 0 u) = Some (w', y)"
    using second_select_total [of "job_chans sch" sch u "leftTime j 0 u"] by fastforce
  have w': "w' \<le> t" using second_selectD(3) [OF second pn] before by simp
  show "second_select (job_chans sch) sch u (leftTime j 0 u) = Some (t, GotPanic2 p)"
  proof (cases y)
    case TimerFired
    with second_select_in_time(3) [OF u second] w' early show ?thesis by simp
  next
    case (GotDone2 e)
    with second_selectD(7) [OF second, of e] dn show ?thesis by simp
  next
    case (GotPanic2 p')
    with second_selectD(6) [OF second, of p'] pn w' second show ?thesis by auto
  qed
qed


section \<open>The hooks and the sizes\<close>

text \<open>
  C10. In every state of the worker \<^verbatim>\<open>BeforeRun\<close> and \<^verbatim>\<open>AfterRun\<close> return \<^verbatim>\<open>nil\<close>,
  \<^verbatim>\<open>Capacity\<close> and \<^verbatim>\<open>Usage\<close> return 0, and none of them changes the worker.
\<close>

theorem hooks_and_sizes_constant:
  "BeforeRun s = (None, s) \<and> AfterRun s = (None, s) \<and> Capacity s = (0, s) \<and> Usage s = (0, s)"
  by (simp add: BeforeRun_def AfterRun_def Capacity_def Usage_def)

section \<open>Submission\<close>

text \<open>
  C4. \<^verbatim>\<open>Queue\<close> returns \<^verbatim>\<open>ErrQueueShutdown\<close> when the stop flag is set and \<^verbatim>\<open>nil\<close>
  otherwise, and leaves the worker as it was in both cases: nothing is closed, no job
  is run. A new worker accepts; a worker that has been shut down refuses.
\<close>

theorem Queue_gate:
  "Queue s m = ((if stopFlag s = 1 then Some ErrQueueShutdown else None), s)
   \<and> step (CallQueue m) s = (Error (if stopFlag s = 1 then Some ErrQueueShutdown else None), s)
   \<and> fst (Queue (NewWorker opts) m) = None
   \<and> fst (Queue (snd (Shutdown (NewWorker opts))) m) = Some ErrQueueShutdown"
proof -
  have "stopped (snd (Shutdown (NewWorker opts)))"
    using Shutdown_fresh [OF fresh_NewWorker] by simp
  then have "stopFlag (snd (Shutdown (NewWorker opts))) = 1"
    by (simp add: stopped_def)
  then show ?thesis
    by (simp add: Queue_def NewWorker_core)
qed

section \<open>Shutdown\<close>

text \<open>
  C2. On a worker made by \<^verbatim>\<open>NewWorker\<close>, after any calls other than \<^verbatim>\<open>Shutdown\<close>
  (which leave no effect), the first \<^verbatim>\<open>Shutdown\<close> returns \<^verbatim>\<open>nil\<close>, having called
  \<^verbatim>\<open>rdb.Close()\<close> once and closed \<^verbatim>\<open>s.stop\<close> once. Whatever calls follow, the
  worker stays as that first \<^verbatim>\<open>Shutdown\<close> left it, so nothing is closed again, and
  every later \<^verbatim>\<open>Shutdown\<close> returns \<^verbatim>\<open>ErrQueueShutdown\<close>.
\<close>

theorem Shutdown_first_then_refused:
  assumes "CallShutdown \<notin> set pre"
  shows "effects (snd (exec pre (NewWorker opts))) = []
    \<and> fst (exec (pre @ CallShutdown # post) (NewWorker opts)) ! length pre = Error None
    \<and> stop (snd (exec (pre @ [CallShutdown]) (NewWorker opts))) = Closed
    \<and> effects (snd (exec (pre @ [CallShutdown]) (NewWorker opts))) = [RdbClose, CloseStop]
    \<and> snd (exec (pre @ CallShutdown # post) (NewWorker opts))
        = snd (exec (pre @ [CallShutdown]) (NewWorker opts))
    \<and> (\<forall>i < length post. post ! i = CallShutdown \<longrightarrow>
         fst (exec (pre @ CallShutdown # post) (NewWorker opts)) ! (length pre + 1 + i)
           = Error (Some ErrQueueShutdown))"
proof -
  let ?w = "NewWorker opts"
  let ?s1 = "snd (Shutdown ?w)"
  have pre: "snd (exec pre ?w) = ?w"
    using assms by (simp add: exec_unchanged)
  have first: "fst (Shutdown ?w) = Returns None" and s1: "stopped ?s1"
    using Shutdown_fresh [OF fresh_NewWorker, of opts] by simp_all
  from s1 have flag: "stopFlag ?s1 \<noteq> 0"
    by (simp add: stopped_def)
  have step1: "step CallShutdown ?w = (Error None, ?s1)"
    using first by (cases "Shutdown ?w") simp
  have post: "snd (exec post ?s1) = ?s1"
    using flag by (simp add: exec_unchanged)
  have len: "length (fst (exec pre ?w)) = length pre"
    by (rule length_exec)
  have replies: "fst (exec (pre @ CallShutdown # post) ?w)
      = fst (exec pre ?w) @ Error None # fst (exec post ?s1)"
    by (simp add: exec_append pre step1 split_beta del: step.simps)
  have "fst (exec (pre @ CallShutdown # post) ?w) ! length pre = Error None"
    unfolding replies using len by (simp add: nth_append)
  moreover have "snd (exec (pre @ [CallShutdown]) ?w) = ?s1"
    by (simp add: exec_append pre step1 del: step.simps)
  moreover have "snd (exec (pre @ CallShutdown # post) ?w) = ?s1"
    by (simp add: exec_append pre step1 post split_beta del: step.simps)
  moreover have "fst (exec (pre @ CallShutdown # post) ?w) ! (length pre + 1 + i)
      = Error (Some ErrQueueShutdown)" if "i < length post" "post ! i = CallShutdown" for i
  proof -
    have "fst (exec (pre @ CallShutdown # post) ?w) ! (length pre + 1 + i)
        = fst (exec post ?s1) ! i"
      unfolding replies using len by (simp add: nth_append)
    also have "\<dots> = Error (Some ErrQueueShutdown)"
      using flag that by (rule exec_replies_stopped)
    finally show ?thesis .
  qed
  ultimately show ?thesis
    using s1 pre by (simp add: stopped_def NewWorker_core)
qed

theorem Shutdown_first_then_refused_witness:
  "CallShutdown \<notin> set [CallRun]
   \<and> fst (exec [CallRun, CallShutdown, CallShutdown, CallRun, CallShutdown] (NewWorker []))
       = [Error None, Error None, Error (Some ErrQueueShutdown), Error (Some ErrQueueShutdown),
          Error (Some ErrQueueShutdown)]
   \<and> effects (snd (exec [CallRun, CallShutdown, CallShutdown, CallRun, CallShutdown]
         (NewWorker [])))
       = [RdbClose, CloseStop]"
proof -
  have h: "CallShutdown \<notin> set [CallRun]" by simp
  note t = Shutdown_first_then_refused [OF h, of "[]" "[CallShutdown, CallRun, CallShutdown]"]
  have e: "effects (snd (exec [CallRun, CallShutdown, CallShutdown, CallRun, CallShutdown]
        (NewWorker [])))
      = [RdbClose, CloseStop]"
    using t by simp
  have "fst (exec [CallRun, CallShutdown, CallShutdown, CallRun, CallShutdown] (NewWorker []))
       = [Error None, Error None, Error (Some ErrQueueShutdown), Error (Some ErrQueueShutdown),
          Error (Some ErrQueueShutdown)]"
    by (simp add: NewWorker_def Run_def Shutdown_def CompareAndSwapInt32_def Once_Do_def
        teardown_def)
  with h e show ?thesis by simp
qed

text \<open>
  C8. Along every sequence of calls on a worker made by \<^verbatim>\<open>NewWorker\<close> the stop flag is
  0 or 1, \<^verbatim>\<open>s.stop\<close> has been closed at most once and no call has panicked on closing
  it again; and once the flag is 1, it is 1 after every further sequence of calls, with
  \<^verbatim>\<open>s.stop\<close> closed exactly once.
\<close>

theorem stopFlag_one_way:
  "(stopFlag (snd (exec cs (NewWorker opts))) = 0 \<or> stopFlag (snd (exec cs (NewWorker opts))) = 1)
   \<and> count_list (effects (snd (exec cs (NewWorker opts)))) CloseStop \<le> 1
   \<and> Crash p \<notin> set (fst (exec cs (NewWorker opts)))
   \<and> (stopFlag (snd (exec cs (NewWorker opts))) = 1 \<longrightarrow>
        stopFlag (snd (exec (cs @ ds) (NewWorker opts))) = 1
        \<and> stop (snd (exec (cs @ ds) (NewWorker opts))) = Closed
        \<and> count_list (effects (snd (exec (cs @ ds) (NewWorker opts)))) CloseStop = 1)"
proof -
  let ?s = "snd (exec cs (NewWorker opts))"
  have two: "fresh ?s \<or> stopped ?s" and nocrash: "Crash p \<notin> set (fst (exec cs (NewWorker opts)))"
    using exec_two_states [of "NewWorker opts" cs p] fresh_NewWorker by blast+
  have later: "snd (exec (cs @ ds) (NewWorker opts)) = ?s" if "stopFlag ?s = 1"
  proof -
    from that have "snd (exec ds ?s) = ?s"
      by (simp add: exec_unchanged)
    then show ?thesis
      by (simp add: exec_append)
  qed
  have "stopped ?s" if "stopFlag ?s = 1"
    using two that by (auto simp: fresh_def)
  with two nocrash later show ?thesis
    by (auto simp: fresh_def stopped_def)
qed

theorem stopFlag_one_way_witness:
  "stopFlag (snd (exec [CallShutdown] (NewWorker []))) = 1
   \<and> stopFlag (snd (exec ([CallShutdown]
          @ [CallQueue [], CallShutdown, CallRun]) (NewWorker []))) = 1"
proof -
  have h: "stopFlag (snd (exec [CallShutdown] (NewWorker []))) = 1"
    by (simp add: NewWorker_def Shutdown_def CompareAndSwapInt32_def Once_Do_def teardown_def)
  from stopFlag_one_way [of "[CallShutdown]" "[]"] h show ?thesis by blast
qed


section \<open>The outcomes of handle\<close>

text \<open>
  C5. When neither the handler has returned or panicked nor \<^verbatim>\<open>s.stop\<close> has been closed
  by the time the job's timeout has elapsed, the outer \<^verbatim>\<open>select\<close> takes the
  \<^verbatim>\<open>ctx.Done()\<close> case at the deadline, \<^verbatim>\<open>handle\<close> returns \<^verbatim>\<open>ctx.Err()\<close>, which is
  the deadline error, and the job's context is cancelled with that error.
\<close>

theorem timeout_first:
  assumes "later_than (handler_ends sch) (job_deadline j)"
    and "later_than (stop_ready s sch) (job_deadline j)"
  shows "first_select s (job_ctx j) (job_chans sch) sch 0 = Some (job_deadline j, CtxDone)
    \<and> handle s j sch =
        Some \<lparr>outcome = Returns (Some DeadlineExceeded), returned_at = job_deadline j,
              ctx_after = \<lparr>deadline = job_deadline j, err = Some DeadlineExceeded\<rparr>\<rparr>"
proof (cases rule: handle_cases [of s j sch])
  case (panic t p)
  from first_selectD(6) [OF panic(1) refl] obtain u
    where "u \<le> t" "panicChan (job_chans sch) = Some (u, p)" by blast
  with late_chans(1) [OF assms(1)] first_select_in_time [OF panic(1)] show ?thesis
    by fastforce
next
  case (ctxdone t)
  from first_selectD(7) [OF ctxdone(1) refl] first_select_in_time [OF ctxdone(1)]
  have "t = job_deadline j" by (simp add: deadline_job_ctx)
  with ctxdone show ?thesis
    by (simp add: finish_job_ctx Err_job_ctx)
next
  case (stop_timer t t')
  with late_stop [OF assms(2) stop_timer(1)] first_select_in_time [OF stop_timer(1)]
  show ?thesis by simp
next
  case (stop_done t t' e)
  with late_stop [OF assms(2) stop_done(1)] first_select_in_time [OF stop_done(1)]
  show ?thesis by simp
next
  case (stop_panic t t' p)
  with late_stop [OF assms(2) stop_panic(1)] first_select_in_time [OF stop_panic(1)]
  show ?thesis by simp
next
  case (finished t e)
  from first_selectD(9) [OF finished(1) refl] obtain u
    where "u \<le> t" "doneChan (job_chans sch) = Some (u, e)" by blast
  with late_chans(2) [OF assms(1)] first_select_in_time [OF finished(1)] show ?thesis
    by fastforce
qed

theorem timeout_first_witness:
  "later_than (handler_ends \<lparr>handler = Some (15, Returns None), stop_at = Some 12, rnd1 = 0, rnd2 = 0\<rparr>)
     (nat (sint (Timeout \<lparr>Timeout = 10, Payload = []\<rparr>)))
   \<and> later_than (stop_ready (NewWorker [])
        \<lparr>handler = Some (15, Returns None), stop_at = Some 12, rnd1 = 0, rnd2 = 0\<rparr>)
     (nat (sint (Timeout \<lparr>Timeout = 10, Payload = []\<rparr>)))
   \<and> handle (NewWorker []) \<lparr>Timeout = 10, Payload = []\<rparr>
        \<lparr>handler = Some (15, Returns None), stop_at = Some 12, rnd1 = 0, rnd2 = 0\<rparr> =
      Some \<lparr>outcome = Returns (Some DeadlineExceeded), returned_at = 10,
            ctx_after = \<lparr>deadline = 10, err = Some DeadlineExceeded\<rparr>\<rparr>"
proof -
  let ?sch = "\<lparr>handler = Some (15, Returns None), stop_at = Some 12, rnd1 = 0, rnd2 = 0\<rparr>"
  let ?j = "\<lparr>Timeout = 10, Payload = []\<rparr>"
  have a: "later_than (handler_ends ?sch) (nat (sint (Timeout ?j)))"
    by (simp add: later_than_def handler_ends_def)
  have b: "later_than (stop_ready (NewWorker []) ?sch) (nat (sint (Timeout ?j)))"
    by (simp add: later_than_def stop_ready_def NewWorker_def)
  from timeout_first [OF a b] a b show ?thesis by simp
qed


text \<open>
  C6. When the handler returns before the deadline, \<^verbatim>\<open>handle\<close> returns the very
  value the handler returned, \<^verbatim>\<open>nil\<close> or an error, at the time the handler returned
  it, and not the deadline error. If \<^verbatim>\<open>s.stop\<close> has not been closed by then, it is the
  outer \<^verbatim>\<open>select\<close> that receives the value from \<^verbatim>\<open>done\<close>; the value is also what
  \<^verbatim>\<open>handle\<close> returns when a shutdown came first.
\<close>

theorem handler_value_returned:
  assumes "handler sch = Some (t, Returns e)" and "t < job_deadline j"
  shows "handle s j sch =
        Some \<lparr>outcome = Returns e, returned_at = t,
              ctx_after = \<lparr>deadline = job_deadline j, err = Some Canceled\<rparr>\<rparr>
    \<and> (later_than (stop_ready s sch) t \<longrightarrow>
         first_select s (job_ctx j) (job_chans sch) sch 0 = Some (t, GotDone e))"
proof -
  have dn: "doneChan (job_chans sch) = Some (t, e)" and pn: "panicChan (job_chans sch) = None"
    by (simp_all add: assms(1) goroutine_Returns)
  have "first_select s (job_ctx j) (job_chans sch) sch 0 = Some (t, GotDone e)"
    if late: "later_than (stop_ready s sch) t"
  proof -
    obtain w x where first: "first_select s (job_ctx j) (job_chans sch) sch 0 = Some (w, x)"
      using first_select_total [of s "job_ctx j" "job_chans sch" sch 0] by fastforce
    have w: "w \<le> t" using first_selectD(5) [OF first dn] by simp
    show ?thesis
    proof (cases x)
      case (GotPanic p)
      with first_selectD(6) [OF first, of p] pn show ?thesis by simp
    next
      case CtxDone
      with first_selectD(7) [OF first] w assms(2) show ?thesis
        by (simp add: deadline_job_ctx)
    next
      case GotStop
      with late_stop [OF late] first w show ?thesis by fastforce
    next
      case (GotDone e')
      with first_selectD(9) [OF first, of e'] dn w first show ?thesis by auto
    qed
  qed
  with finished_early [OF assms, of s] show ?thesis by simp
qed

theorem handler_value_returned_witness:
  "handler \<lparr>handler = Some (3, Returns (Some (HandlerError ''boom''))), stop_at = None,
      rnd1 = 0, rnd2 = 0\<rparr> = Some (3, Returns (Some (HandlerError ''boom'')))
   \<and> 3 < nat (sint (Timeout \<lparr>Timeout = 10, Payload = []\<rparr>))
   \<and> later_than (stop_ready (NewWorker []) \<lparr>handler = Some (3, Returns (Some (HandlerError ''boom''))),
        stop_at = None, rnd1 = 0, rnd2 = 0\<rparr>) 3
   \<and> handle (NewWorker []) \<lparr>Timeout = 10, Payload = []\<rparr>
        \<lparr>handler = Some (3, Returns (Some (HandlerError ''boom''))), stop_at = None,
         rnd1 = 0, rnd2 = 0\<rparr> =
      Some \<lparr>outcome = Returns (Some (HandlerError ''boom'')), returned_at = 3,
            ctx_after = \<lparr>deadline = 10, err = Some Canceled\<rparr>\<rparr>"
proof -
  let ?sch = "\<lparr>handler = Some (3, Returns (Some (HandlerError ''boom''))), stop_at = None,
      rnd1 = 0, rnd2 = 0\<rparr>"
  let ?j = "\<lparr>Timeout = 10, Payload = []\<rparr>"
  have a: "handler ?sch = Some (3, Returns (Some (HandlerError ''boom'')))" by simp
  have b: "3 < nat (sint (Timeout ?j))" by simp
  have c: "later_than (stop_ready (NewWorker []) ?sch) 3"
    by (simp add: later_than_def stop_ready_def NewWorker_def)
  from handler_value_returned [OF a b, of "NewWorker []"] a b c show ?thesis by simp
qed








section \<open>Panics of the handler\<close>

text \<open>
  C3, as the code has it. When the handler panics with a value that is not \<^verbatim>\<open>nil\<close>,
  the goroutine sends that value on \<^verbatim>\<open>panicChan\<close> and nothing on \<^verbatim>\<open>done\<close>, and
  \<^verbatim>\<open>handle\<close> never turns the panic into an error of its own: it ends in a panic with
  the same value, or, only when the deadline was reached no later than the panic, with
  the deadline error. When the panic comes strictly before the deadline, \<^verbatim>\<open>handle\<close>
  panics with the same value at that time: the outer \<^verbatim>\<open>select\<close> receives it if
  \<^verbatim>\<open>s.stop\<close> has not been closed by then, and the inner \<^verbatim>\<open>select\<close> receives it
  after a shutdown observed earlier.
\<close>

theorem handler_panic_reraised:
  assumes "handler sch = Some (t, Panics p)" and "p \<noteq> INil"
  shows "job_chans sch = \<lparr>doneChan = None, panicChan = Some (t, p)\<rparr>
    \<and> (\<exists>res. handle s j sch = Some res
         \<and> (outcome res = Panics p
            \<or> job_deadline j \<le> t \<and> outcome res = Returns (Some DeadlineExceeded)))
    \<and> (t < job_deadline j \<longrightarrow>
         handle s j sch =
           Some \<lparr>outcome = Panics p, returned_at = t,
                 ctx_after = \<lparr>deadline = job_deadline j, err = Some Canceled\<rparr>\<rparr>
         \<and> (later_than (stop_ready s sch) t \<longrightarrow>
              first_select s (job_ctx j) (job_chans sch) sch 0 = Some (t, GotPanic p))
         \<and> (\<forall>u. stop_ready s sch = Some u \<and> u < t \<longrightarrow>
              first_select s (job_ctx j) (job_chans sch) sch 0 = Some (u, GotStop)
              \<and> second_select (job_chans sch) sch u (leftTime j 0 u) = Some (t, GotPanic2 p)))"
proof -
  have chs: "job_chans sch = \<lparr>doneChan = None, panicChan = Some (t, p)\<rparr>"
    by (simp add: assms goroutine_Panics)
  have any: "\<exists>res. handle s j sch = Some res
         \<and> (outcome res = Panics p
            \<or> job_deadline j \<le> t \<and> outcome res = Returns (Some DeadlineExceeded))"
  proof (cases "t < job_deadline j")
    case True
    from panicked_early [OF assms True, of s] show ?thesis by simp
  next
    case False
    with panicked_any_time [OF assms, of s j] show ?thesis by auto
  qed
  have early: "handle s j sch =
           Some \<lparr>outcome = Panics p, returned_at = t,
                 ctx_after = \<lparr>deadline = job_deadline j, err = Some Canceled\<rparr>\<rparr>"
    if "t < job_deadline j"
    using panicked_early [OF assms that] .
  from chs any early panic_before_shutdown [OF assms] panic_after_shutdown [OF assms]
  show ?thesis by blast
qed

theorem handler_panic_reraised_witness:
  "handler \<lparr>handler = Some (7, Panics (IVal ''boom'')), stop_at = Some 3, rnd1 = 0, rnd2 = 0\<rparr>
     = Some (7, Panics (IVal ''boom''))
   \<and> IVal ''boom'' \<noteq> INil
   \<and> 7 < nat (sint (Timeout \<lparr>Timeout = 10, Payload = []\<rparr>))
   \<and> stop_ready (NewWorker [])
        \<lparr>handler = Some (7, Panics (IVal ''boom'')), stop_at = Some 3, rnd1 = 0, rnd2 = 0\<rparr> = Some 3
   \<and> handle (NewWorker []) \<lparr>Timeout = 10, Payload = []\<rparr>
        \<lparr>handler = Some (7, Panics (IVal ''boom'')), stop_at = Some 3, rnd1 = 0, rnd2 = 0\<rparr> =
      Some \<lparr>outcome = Panics (IVal ''boom''), returned_at = 7,
            ctx_after = \<lparr>deadline = 10, err = Some Canceled\<rparr>\<rparr>
   \<and> second_select
        (goroutine (handler \<lparr>handler = Some (7, Panics (IVal ''boom'')), stop_at = Some 3,
           rnd1 = 0, rnd2 = 0\<rparr>))
        \<lparr>handler = Some (7, Panics (IVal ''boom'')), stop_at = Some 3, rnd1 = 0, rnd2 = 0\<rparr> 3
        (leftTime \<lparr>Timeout = 10, Payload = []\<rparr> 0 3) = Some (7, GotPanic2 (IVal ''boom''))"
proof -
  let ?sch = "\<lparr>handler = Some (7, Panics (IVal ''boom'')), stop_at = Some 3, rnd1 = 0, rnd2 = 0\<rparr>"
  let ?j = "\<lparr>Timeout = 10, Payload = []\<rparr>"
  have a: "handler ?sch = Some (7, Panics (IVal ''boom''))" by simp
  have b: "IVal ''boom'' \<noteq> INil" by simp
  have c: "7 < nat (sint (Timeout ?j))" by simp
  have d: "stop_ready (NewWorker []) ?sch = Some 3"
    by (simp add: stop_ready_def NewWorker_def)
  from handler_panic_reraised [OF a b, of "NewWorker []" ?j] c d
  have "handle (NewWorker []) ?j ?sch =
      Some \<lparr>outcome = Panics (IVal ''boom''), returned_at = 7,
            ctx_after = \<lparr>deadline = job_deadline ?j, err = Some Canceled\<rparr>\<rparr>"
    and "second_select (job_chans ?sch) ?sch 3 (leftTime ?j 0 3)
      = Some (7, GotPanic2 (IVal ''boom''))"
    by auto
  with a b c d show ?thesis by simp
qed


text \<open>
  The claim as it was stated, for every job whose handler panics, fails at the
  deadline: a panic value that is ready together with \<^verbatim>\<open>ctx.Done()\<close> can lose the
  random choice, and one sent after the deadline finds nobody receiving. In both runs
  the value is on \<^verbatim>\<open>panicChan\<close> and \<^verbatim>\<open>handle\<close> returns the deadline error.
\<close>

theorem handler_panic_dropped_counterexample:
  "panicChan (goroutine (Some (10, Panics (IVal ''boom'')))) = Some (10, IVal ''boom'')
   \<and> handle (NewWorker []) \<lparr>Timeout = 10, Payload = []\<rparr>
        \<lparr>handler = Some (10, Panics (IVal ''boom'')), stop_at = None, rnd1 = 1, rnd2 = 0\<rparr> =
      Some \<lparr>outcome = Returns (Some DeadlineExceeded), returned_at = 10,
            ctx_after = \<lparr>deadline = 10, err = Some DeadlineExceeded\<rparr>\<rparr>
   \<and> panicChan (goroutine (Some (15, Panics (IVal ''boom'')))) = Some (15, IVal ''boom'')
   \<and> handle (NewWorker []) \<lparr>Timeout = 10, Payload = []\<rparr>
        \<lparr>handler = Some (15, Panics (IVal ''boom'')), stop_at = None, rnd1 = 0, rnd2 = 0\<rparr> =
      Some \<lparr>outcome = Returns (Some DeadlineExceeded), returned_at = 10,
            ctx_after = \<lparr>deadline = 10, err = Some DeadlineExceeded\<rparr>\<rparr>"
  by (simp add: handle_def first_select_def select_def goroutine_def recover_def
      WithTimeout_def stop_ready_def NewWorker_def finish_def cancel_def
      Err_def)

section \<open>Handler and shutdown ready together\<close>

text \<open>
  C7, as the code has it. When the handler's value and the closing of \<^verbatim>\<open>s.stop\<close>
  become ready at the same time, before the deadline, the outer \<^verbatim>\<open>select\<close> takes
  either of the two cases, by its random choice: the stop case on an even number, the
  done case on an odd one. On both ways \<^verbatim>\<open>handle\<close> returns the handler's value at
  that time.
\<close>

theorem done_and_stop_race:
  assumes "handler sch = Some (t, Returns e)" and "stop_ready s sch = Some t"
    and "t < job_deadline j"
  shows "first_select s (job_ctx j) (job_chans sch) sch 0
      = Some (t, if even (rnd1 sch) then GotStop else GotDone e)
    \<and> handle s j sch =
        Some \<lparr>outcome = Returns e, returned_at = t,
              ctx_after = \<lparr>deadline = job_deadline j, err = Some Canceled\<rparr>\<rparr>"
proof -
  have two: "[a, b] ! (r mod Suc (Suc 0)) = (if even r then a else b)"
    for a b :: "nat \<times> recv1" and r :: nat
  proof (cases "even r")
    case True
    then have "r mod Suc (Suc 0) = 0" by presburger
    with True show ?thesis by simp
  next
    case False
    then have "r mod Suc (Suc 0) = 1" by presburger
    with False show ?thesis by simp
  qed
  have "first_select s (job_ctx j) (job_chans sch) sch 0
      = Some (t, if even (rnd1 sch) then GotStop else GotDone e)"
    using assms(3)
    by (simp add: first_select_def select_def assms(1,2) goroutine_Returns WithTimeout_def
        two)
  with finished_early [OF assms(1,3), of s] show ?thesis by simp
qed

theorem done_and_stop_race_witness:
  "handler \<lparr>handler = Some (3, Returns None), stop_at = Some 3, rnd1 = 4, rnd2 = 0\<rparr>
     = Some (3, Returns None)
   \<and> stop_ready (NewWorker [])
       \<lparr>handler = Some (3, Returns None), stop_at = Some 3, rnd1 = 4, rnd2 = 0\<rparr> = Some 3
   \<and> 3 < nat (sint (Timeout \<lparr>Timeout = 10, Payload = []\<rparr>))
   \<and> first_select (NewWorker []) (WithTimeout 0 (Timeout \<lparr>Timeout = 10, Payload = []\<rparr>))
       (goroutine (handler \<lparr>handler = Some (3, Returns None), stop_at = Some 3, rnd1 = 4, rnd2 = 0\<rparr>))
       \<lparr>handler = Some (3, Returns None), stop_at = Some 3, rnd1 = 4, rnd2 = 0\<rparr> 0
       = Some (3, GotStop)
   \<and> handle (NewWorker []) \<lparr>Timeout = 10, Payload = []\<rparr>
        \<lparr>handler = Some (3, Returns None), stop_at = Some 3, rnd1 = 4, rnd2 = 0\<rparr> =
      Some \<lparr>outcome = Returns None, returned_at = 3,
            ctx_after = \<lparr>deadline = 10, err = Some Canceled\<rparr>\<rparr>"
proof -
  let ?sch = "\<lparr>handler = Some (3, Returns None), stop_at = Some 3, rnd1 = 4, rnd2 = 0\<rparr>"
  let ?j = "\<lparr>Timeout = 10, Payload = []\<rparr>"
  have a: "handler ?sch = Some (3, Returns None)" by simp
  have b: "stop_ready (NewWorker []) ?sch = Some 3"
    by (simp add: stop_ready_def NewWorker_def)
  have c: "3 < nat (sint (Timeout ?j))" by simp
  from done_and_stop_race [OF a b c] a b c show ?thesis by simp
qed



text \<open>
  The claim as it was stated, that the shutdown case is taken whenever both are ready,
  fails: with both ready at time 3 the choice can fall on the done case.
\<close>

theorem shutdown_precedence_counterexample:
  "doneChan (goroutine (Some (3, Returns None))) = Some (3, None)
   \<and> stop_ready (NewWorker [])
       \<lparr>handler = Some (3, Returns None), stop_at = Some 3, rnd1 = 1, rnd2 = 0\<rparr> = Some 3
   \<and> first_select (NewWorker []) (WithTimeout 0 10) (goroutine (Some (3, Returns None)))
       \<lparr>handler = Some (3, Returns None), stop_at = Some 3, rnd1 = 1, rnd2 = 0\<rparr> 0
       = Some (3, GotDone None)
   \<and> first_select (NewWorker []) (WithTimeout 0 10) (goroutine (Some (3, Returns None)))
       \<lparr>handler = Some (3, Returns None), stop_at = Some 3, rnd1 = 1, rnd2 = 0\<rparr> 0
       \<noteq> Some (3, GotStop)"
  by (simp add: first_select_def select_def goroutine_def recover_def WithTimeout_def
      stop_ready_def NewWorker_def)


end
